theory Spec2Isabelle
  imports Main
begin

section \<open>The task service: cache-aside listing with invalidation on write\<close>

text \<open>
  The service keeps its tasks in a relational store (the source of truth) and memoises the
  full listing in a key-value cache under the single key \<open>tasks:all\<close>. The five task
  routes of the server are embedded here as functions from a state of the two backing
  systems to an outcome and a new state. Every call to a collaborator is written to a
  log inside the state, so that "the store is not consulted" and "store first, eviction
  second" are statements about that log.
\<close>

subsection \<open>JSON values\<close>

text \<open>
  Strings are lists of code units below 256 and numbers are the integers, printed in
  plain decimal: this is the fragment the task listing lives in (identifiers are exact
  integers). Objects carry their properties in enumeration order.
\<close>

datatype json =
    JNull
  | JBool bool
  | JNum int
  | JStr string
  | JArr "json list"
  | JObj "(string \<times> json) list"

subsection \<open>\<open>JSON.stringify\<close>\<close>

definition is_digit :: "char \<Rightarrow> bool" where
  "is_digit c \<longleftrightarrow> 48 \<le> (of_char c :: nat) \<and> (of_char c :: nat) \<le> 57"

definition digit_char :: "nat \<Rightarrow> char" where
  "digit_char d = ''0123456789'' ! d"

definition digit_val :: "char \<Rightarrow> nat" where
  "digit_val c = of_char c - 48"

fun digits :: "nat \<Rightarrow> string" where
  "digits n = (if n < 10 then [digit_char n] else digits (n div 10) @ [digit_char (n mod 10)])"

definition digits_val :: "string \<Rightarrow> nat" where
  "digits_val ds = foldl (\<lambda>a c. 10 * a + digit_val c) 0 ds"

definition show_int :: "int \<Rightarrow> string" where
  "show_int i = (if i < 0 then CHR ''-'' # digits (nat (- i)) else digits (nat i))"

definition hex_char :: "nat \<Rightarrow> char" where
  "hex_char d = ''0123456789abcdef'' ! d"

text \<open>
  Quoting a string: the quotation mark and the backslash are escaped, the control
  characters have their short escapes or the form \<open>\u00XX\<close>, everything else is
  copied.
\<close>

definition escape_char :: "char \<Rightarrow> string" where
  "escape_char c =
    (if c = CHR 0x22 then [CHR 0x5C, CHR 0x22]
     else if c = CHR 0x5C then [CHR 0x5C, CHR 0x5C]
     else if c = CHR 0x08 then [CHR 0x5C, CHR ''b'']
     else if c = CHR 0x0C then [CHR 0x5C, CHR ''f'']
     else if c = CHR 0x0A then [CHR 0x5C, CHR ''n'']
     else if c = CHR 0x0D then [CHR 0x5C, CHR ''r'']
     else if c = CHR 0x09 then [CHR 0x5C, CHR ''t'']
     else if (of_char c :: nat) < 32
       then [CHR 0x5C, CHR ''u'', CHR ''0'', CHR ''0'',
             hex_char (of_char c div 16), hex_char (of_char c mod 16)]
     else [c])"

definition quote :: "string \<Rightarrow> string" where
  "quote s = CHR 0x22 # concat (map escape_char s) @ [CHR 0x22]"

fun join_comma :: "string list \<Rightarrow> string" where
  "join_comma [] = []"
| "join_comma [x] = x"
| "join_comma (x # y # zs) = x @ CHR '','' # join_comma (y # zs)"

primrec JSON_stringify :: "json \<Rightarrow> string" where
  "JSON_stringify JNull = ''null''"
| "JSON_stringify (JBool b) = (if b then ''true'' else ''false'')"
| "JSON_stringify (JNum i) = show_int i"
| "JSON_stringify (JStr s) = quote s"
| "JSON_stringify (JArr vs) = CHR ''['' # join_comma (map JSON_stringify vs) @ [CHR '']'']"
| "JSON_stringify (JObj ms) =
     CHR ''{'' #
       join_comma (map (\<lambda>(k, v). quote k @ CHR '':'' # v) (map (map_prod id JSON_stringify) ms))
       @ [CHR ''}'']"

subsection \<open>\<open>JSON.parse\<close>\<close>

text \<open>
  A recursive-descent reader of the JSON grammar: insignificant white space, the three
  literals, integers without leading zeros, strings with their escapes, arrays and
  objects. \<open>None\<close> is the \<open>SyntaxError\<close> of the built-in; a numeral with a
  fraction or an exponent and an escape \<open>\uXXXX\<close> above 255 lie outside the fragment
  and are answered with \<open>None\<close> as well. The recursion is on a fuel argument that
  \<open>JSON_parse\<close> sets from the length of the text.
\<close>

definition is_ws :: "char \<Rightarrow> bool" where
  "is_ws c \<longleftrightarrow> c = CHR 0x20 \<or> c = CHR 0x09 \<or> c = CHR 0x0A \<or> c = CHR 0x0D"

definition skip_ws :: "string \<Rightarrow> string" where
  "skip_ws s = dropWhile is_ws s"

definition hex_val :: "char \<Rightarrow> nat option" where
  "hex_val c =
    (let n = (of_char c :: nat) in
     if 48 \<le> n \<and> n \<le> 57 then Some (n - 48)
     else if 97 \<le> n \<and> n \<le> 102 then Some (n - 87)
     else if 65 \<le> n \<and> n \<le> 70 then Some (n - 55)
     else None)"

definition hex4 :: "char \<Rightarrow> char \<Rightarrow> char \<Rightarrow> char \<Rightarrow> char option" where
  "hex4 a b c d =
    (case (hex_val a, hex_val b, hex_val c, hex_val d) of
       (Some p, Some q, Some r, Some s) \<Rightarrow>
         (let n = ((p * 16 + q) * 16 + r) * 16 + s
          in if n < 256 then Some (char_of n) else None)
     | _ \<Rightarrow> None)"

definition unescape :: "char \<Rightarrow> char option" where
  "unescape e =
    (if e = CHR 0x22 then Some (CHR 0x22)
     else if e = CHR 0x5C then Some (CHR 0x5C)
     else if e = CHR ''/'' then Some (CHR ''/'')
     else if e = CHR ''b'' then Some (CHR 0x08)
     else if e = CHR ''f'' then Some (CHR 0x0C)
     else if e = CHR ''n'' then Some (CHR 0x0A)
     else if e = CHR ''r'' then Some (CHR 0x0D)
     else if e = CHR ''t'' then Some (CHR 0x09)
     else None)"

text \<open>The characters of a string literal, read after its opening quotation mark.\<close>

fun parse_chars :: "string \<Rightarrow> (string \<times> string) option" where
  "parse_chars [] = None"
| "parse_chars (c # cs) =
    (if c = CHR 0x22 then Some ([], cs)
     else if c = CHR 0x5C then
       (case cs of
          [] \<Rightarrow> None
        | e # es \<Rightarrow>
            if e = CHR ''u'' then
              (case es of
                 h1 # h2 # h3 # h4 # r \<Rightarrow>
                   (case hex4 h1 h2 h3 h4 of
                      None \<Rightarrow> None
                    | Some u \<Rightarrow> map_option (apfst ((#) u)) (parse_chars r))
               | _ \<Rightarrow> None)
            else
              (case unescape e of
                 None \<Rightarrow> None
               | Some u \<Rightarrow> map_option (apfst ((#) u)) (parse_chars es)))
     else if (of_char c :: nat) < 32 then None
     else map_option (apfst ((#) c)) (parse_chars cs))"

definition strip_prefix :: "string \<Rightarrow> string \<Rightarrow> string option" where
  "strip_prefix p s = (if take (length p) s = p then Some (drop (length p) s) else None)"

definition parse_digits :: "string \<Rightarrow> (nat \<times> string) option" where
  "parse_digits s =
    (let ds = takeWhile is_digit s; r = dropWhile is_digit s
     in if ds = [] \<or> (take 1 ds = ''0'' \<and> 1 < length ds) then None
        else if take 1 r = ''.'' \<or> take 1 r = ''e'' \<or> take 1 r = ''E'' then None
        else Some (digits_val ds, r))"

definition parse_number :: "string \<Rightarrow> (json \<times> string) option" where
  "parse_number s =
    (case s of
       [] \<Rightarrow> None
     | c # cs \<Rightarrow>
         if c = CHR ''-'' then map_option (apfst (\<lambda>n. JNum (- int n))) (parse_digits cs)
         else map_option (apfst (\<lambda>n. JNum (int n))) (parse_digits (c # cs)))"

text \<open>
  The properties of a parsed object: a repeated key keeps its first position and takes
  the last value, and the keys that are array indices come first, in ascending order.
\<close>

definition is_array_index :: "string \<Rightarrow> bool" where
  "is_array_index k \<longleftrightarrow>
     k \<noteq> [] \<and> list_all is_digit k \<and> (k = ''0'' \<or> take 1 k \<noteq> ''0'')
       \<and> digits_val k < 4294967295"

fun put_prop :: "string \<Rightarrow> json \<Rightarrow> (string \<times> json) list \<Rightarrow> (string \<times> json) list" where
  "put_prop k v [] = [(k, v)]"
| "put_prop k v ((k', v') # ps) =
     (if k = k' then (k, v) # ps else (k', v') # put_prop k v ps)"

definition js_object :: "(string \<times> json) list \<Rightarrow> (string \<times> json) list" where
  "js_object ms =
    (let ps = foldl (\<lambda>ps (k, v). put_prop k v ps) [] ms
     in sort_key (\<lambda>(k, v). digits_val k) (filter (\<lambda>(k, v). is_array_index k) ps)
          @ filter (\<lambda>(k, v). \<not> is_array_index k) ps)"

fun parse_value :: "nat \<Rightarrow> string \<Rightarrow> (json \<times> string) option"
and parse_elements :: "nat \<Rightarrow> string \<Rightarrow> (json list \<times> string) option"
and parse_members :: "nat \<Rightarrow> string \<Rightarrow> ((string \<times> json) list \<times> string) option" where
  "parse_value 0 s = None"
| "parse_value (Suc n) s =
    (case skip_ws s of
       [] \<Rightarrow> None
     | c # cs \<Rightarrow>
         if c = CHR ''['' then
           (case skip_ws cs of
              [] \<Rightarrow> None
            | d # ds \<Rightarrow>
                if d = CHR '']'' then Some (JArr [], ds)
                else map_option (apfst JArr) (parse_elements n cs))
         else if c = CHR ''{'' then
           (case skip_ws cs of
              [] \<Rightarrow> None
            | d # ds \<Rightarrow>
                if d = CHR ''}'' then Some (JObj [], ds)
                else map_option (apfst (\<lambda>ms. JObj (js_object ms))) (parse_members n cs))
         else if c = CHR 0x22 then map_option (apfst JStr) (parse_chars cs)
         else if c = CHR ''t'' then map_option (Pair (JBool True)) (strip_prefix ''rue'' cs)
         else if c = CHR ''f'' then map_option (Pair (JBool False)) (strip_prefix ''alse'' cs)
         else if c = CHR ''n'' then map_option (Pair JNull) (strip_prefix ''ull'' cs)
         else parse_number (c # cs))"
| "parse_elements 0 s = None"
| "parse_elements (Suc n) s =
    (case parse_value n s of
       None \<Rightarrow> None
     | Some (v, r) \<Rightarrow>
         (case skip_ws r of
            [] \<Rightarrow> None
          | c # cs \<Rightarrow>
              if c = CHR '','' then map_option (apfst ((#) v)) (parse_elements n cs)
              else if c = CHR '']'' then Some ([v], cs)
              else None))"
| "parse_members 0 s = None"
| "parse_members (Suc n) s =
    (case skip_ws s of
       [] \<Rightarrow> None
     | q # s1 \<Rightarrow>
         if q \<noteq> CHR 0x22 then None
         else
           (case parse_chars s1 of
              None \<Rightarrow> None
            | Some (k, s2) \<Rightarrow>
                (case skip_ws s2 of
                   [] \<Rightarrow> None
                 | c # s3 \<Rightarrow>
                     if c \<noteq> CHR '':'' then None
                     else
                       (case parse_value n s3 of
                          None \<Rightarrow> None
                        | Some (v, s4) \<Rightarrow>
                            (case skip_ws s4 of
                               [] \<Rightarrow> None
                             | d # s5 \<Rightarrow>
                                 if d = CHR '','' then
                                   map_option (apfst ((#) (k, v))) (parse_members n s5)
                                 else if d = CHR ''}'' then Some ([(k, v)], s5)
                                 else None)))))"

definition JSON_parse :: "string \<Rightarrow> json option" where
  "JSON_parse s =
    (case parse_value (Suc (length s)) s of
       None \<Rightarrow> None
     | Some (v, r) \<Rightarrow> if skip_ws r = [] then Some v else None)"

text \<open>JavaScript truthiness of a value, as the guards \<open>if (x)\<close> and \<open>!x\<close> test it.\<close>

fun truthy :: "json \<Rightarrow> bool" where
  "truthy JNull = False"
| "truthy (JBool b) = b"
| "truthy (JNum i) = (i \<noteq> 0)"
| "truthy (JStr s) = (s \<noteq> [])"
| "truthy (JArr vs) = True"
| "truthy (JObj ms) = True"

subsection \<open>The data model\<close>

text \<open>
  Modelled from the spec: the \<open>Task\<close> model of \<open>src/models/index.js\<close> is not part of
  the sources at hand. A task record has an identifier assigned by the store, a
  description (text) and a completion flag; its JSON form lists the three fields in this
  order.
\<close>

record task =
  task_id :: nat
  description :: string
  completed :: bool

definition task_json :: "task \<Rightarrow> json" where
  "task_json t =
     JObj [(''id'', JNum (int (task_id t))),
           (''description'', JStr (description t)),
           (''completed'', JBool (completed t))]"

definition tasks_json :: "task list \<Rightarrow> json" where
  "tasks_json ts = JArr (map task_json ts)"

text \<open>
  A failure of a collaborator is a rejected promise. Which calls fail during a request
  is a parameter of every operation: \<open>F c\<close> holds when the calls of kind \<open>c\<close> fail.
\<close>

datatype error = CacheError | BackingStoreError

datatype call =
    Redis_get | Redis_setEx | Redis_del
  | Sot_findAll | Sot_findByPk | Sot_create | Sot_update | Sot_destroy

type_synonym faults = "call \<Rightarrow> bool"

datatype event =
    Ev_get string
  | Ev_setEx string nat string
  | Ev_del string
  | Ev_findAll
  | Ev_findByPk nat
  | Ev_create json bool
  | Ev_update nat "json option" "json option"
  | Ev_destroy nat

text \<open>
  The state: the rows of the store in their natural order with the next serial
  identifier, the cache (each entry a value and its time-to-live in seconds), and the log
  of the collaborator calls made so far.
\<close>

record world =
  rows :: "task list"
  next_id :: nat
  cache :: "string \<rightharpoonup> string \<times> nat"
  trace :: "event list"

definition logged :: "event \<Rightarrow> world \<Rightarrow> world" where
  "logged e w = w\<lparr>trace := trace w @ [e]\<rparr>"

subsection \<open>The cache client\<close>

definition redis_get :: "faults \<Rightarrow> string \<Rightarrow> world \<Rightarrow> (error + string option) \<times> world" where
  "redis_get F k w =
    (if F Redis_get then (Inl CacheError, logged (Ev_get k) w)
     else (Inr (map_option fst (cache w k)), logged (Ev_get k) w))"

definition redis_setEx ::
    "faults \<Rightarrow> string \<Rightarrow> nat \<Rightarrow> string \<Rightarrow> world \<Rightarrow> (error + unit) \<times> world" where
  "redis_setEx F k ttl v w =
    (if F Redis_setEx then (Inl CacheError, logged (Ev_setEx k ttl v) w)
     else (Inr (), logged (Ev_setEx k ttl v) (w\<lparr>cache := (cache w)(k \<mapsto> (v, ttl))\<rparr>)))"

definition redis_del :: "faults \<Rightarrow> string \<Rightarrow> world \<Rightarrow> (error + unit) \<times> world" where
  "redis_del F k w =
    (if F Redis_del then (Inl CacheError, logged (Ev_del k) w)
     else (Inr (), logged (Ev_del k) (w\<lparr>cache := (cache w)(k := None)\<rparr>)))"

subsection \<open>The source of truth\<close>

text \<open>
  Modelled from the spec: \<open>FindAll() -> Sequence<Record>\<close> of the store whose model
  definition is missing; the rows come in the store's natural order.
\<close>

definition Task_findAll :: "faults \<Rightarrow> world \<Rightarrow> (error + task list) \<times> world" where
  "Task_findAll F w =
    (if F Sot_findAll then (Inl BackingStoreError, logged Ev_findAll w)
     else (Inr (rows w), logged Ev_findAll w))"

text \<open>
  Modelled from the spec: \<open>FindByKey(id) -> Record | absent\<close> of the store whose model
  definition is missing.
\<close>

definition Task_findByPk :: "faults \<Rightarrow> nat \<Rightarrow> world \<Rightarrow> (error + task option) \<times> world" where
  "Task_findByPk F i w =
    (if F Sot_findByPk then (Inl BackingStoreError, logged (Ev_findByPk i) w)
     else (Inr (find (\<lambda>t. task_id t = i) (rows w)), logged (Ev_findByPk i) w))"

text \<open>
  Modelled from the spec: \<open>Insert(fields) -> Record\<close> of the store whose model
  definition is missing. The new row takes the next serial identifier and goes last; a
  description that is not text is refused by the store.
\<close>

definition Task_create :: "faults \<Rightarrow> json \<Rightarrow> bool \<Rightarrow> world \<Rightarrow> (error + task) \<times> world" where
  "Task_create F d c w =
    (if F Sot_create then (Inl BackingStoreError, logged (Ev_create d c) w)
     else
       (case d of
          JStr s \<Rightarrow>
            (let t = \<lparr>task_id = next_id w, description = s, completed = c\<rparr>
             in (Inr t, logged (Ev_create d c)
                   (w\<lparr>rows := rows w @ [t], next_id := Suc (next_id w)\<rparr>)))
        | _ \<Rightarrow> (Inl BackingStoreError, logged (Ev_create d c) w)))"

text \<open>
  Modelled from the spec: \<open>UpdateByKey(id, fields) -> Record\<close> of the store whose model
  definition is missing. A field that is not provided (\<open>undefined\<close>) keeps its value; a
  provided value of the wrong type is refused by the store.
\<close>

definition task_update ::
    "faults \<Rightarrow> task \<Rightarrow> json option \<Rightarrow> json option \<Rightarrow> world \<Rightarrow> (error + task) \<times> world" where
  "task_update F t d c w =
    (let e = Ev_update (task_id t) d c in
     if F Sot_update then (Inl BackingStoreError, logged e w)
     else
       (case (case d of None \<Rightarrow> Some (description t) | Some (JStr s) \<Rightarrow> Some s | Some _ \<Rightarrow> None,
              case c of None \<Rightarrow> Some (completed t) | Some (JBool b) \<Rightarrow> Some b | Some _ \<Rightarrow> None) of
          (Some s, Some b) \<Rightarrow>
            (let t' = t\<lparr>description := s, completed := b\<rparr>
             in (Inr t', logged e
                   (w\<lparr>rows := map (\<lambda>r. if task_id r = task_id t then t' else r) (rows w)\<rparr>)))
        | _ \<Rightarrow> (Inl BackingStoreError, logged e w)))"

text \<open>
  Modelled from the spec: \<open>DeleteByKey(id) -> count\<close> of the store whose model
  definition is missing.
\<close>

definition Task_destroy :: "faults \<Rightarrow> nat \<Rightarrow> world \<Rightarrow> (error + nat) \<times> world" where
  "Task_destroy F i w =
    (if F Sot_destroy then (Inl BackingStoreError, logged (Ev_destroy i) w)
     else (Inr (length (filter (\<lambda>t. task_id t = i) (rows w))),
           logged (Ev_destroy i) (w\<lparr>rows := filter (\<lambda>t. task_id t \<noteq> i) (rows w)\<rparr>)))"

subsection \<open>The route handlers\<close>

text \<open>
  A handler either writes a response (status and body) or, when an awaited call rejects
  outside a \<open>try\<close>, ends with its promise rejected and no response written by it.
  \<open>res.json\<close> sends the serialised value; the three error messages are kept as the
  code units of their text.
\<close>

datatype outcome = Response nat string | Rejected error

definition res_json :: "nat \<Rightarrow> json \<Rightarrow> outcome" where
  "res_json status v = Response status (JSON_stringify v)"

definition res_send :: "nat \<Rightarrow> outcome" where
  "res_send status = Response status []"

definition error_body :: "string \<Rightarrow> json" where
  "error_body msg = JObj [(''error'', JStr msg)]"

definition msg_list_failed :: string where
  "msg_list_failed = ''Erro ao buscar tarefas''"

definition msg_description_required :: string where
  "msg_description_required =
     ''Descri'' @ [CHR 0xE7, CHR 0xE3] @ ''o obrigat'' @ [CHR 0xF3] @ ''ria''"

definition msg_not_found :: string where
  "msg_not_found = ''Tarefa n'' @ [CHR 0xE3] @ ''o encontrada''"

definition is_success :: "outcome \<Rightarrow> bool" where
  "is_success r = (case r of Response status b \<Rightarrow> 200 \<le> status \<and> status < 300 | Rejected e \<Rightarrow> False)"

definition cacheKey :: string where
  "cacheKey = ''tasks:all''"

text \<open>
  \<open>GET /tasks\<close>:
  \<^verbatim>\<open>
    try {
      const cacheKey = 'tasks:all';
      const cachedData = await redisClient.get(cacheKey);
      if (cachedData) {
        return res.json(JSON.parse(cachedData));
      }
      const tasks = await Task.findAll();
      await redisClient.setEx(cacheKey, 3600, JSON.stringify(tasks));
      res.json(tasks);
    } catch (error) {
      res.status(500).json({ error: "Erro ao buscar tarefas" });
    }
  \<close>
  First the part after a miss: query the store, write the snapshot with a time-to-live
  of 3600 seconds, answer with the rows. Every failure lands in the \<open>catch\<close>.
\<close>

definition get_tasks_miss :: "faults \<Rightarrow> world \<Rightarrow> outcome \<times> world" where
  "get_tasks_miss F w1 =
    (case Task_findAll F w1 of
       (Inl e, w2) \<Rightarrow> (res_json 500 (error_body msg_list_failed), w2)
     | (Inr tasks, w2) \<Rightarrow>
         (case redis_setEx F cacheKey 3600 (JSON_stringify (tasks_json tasks)) w2 of
            (Inl e, w3) \<Rightarrow> (res_json 500 (error_body msg_list_failed), w3)
          | (Inr u, w3) \<Rightarrow> (res_json 200 (tasks_json tasks), w3)))"

text \<open>
  The whole handler. The guard \<open>if (cachedData)\<close> holds for a stored text that is not
  empty; the stored text is then parsed and sent, and a text that does not parse throws
  into the \<open>catch\<close>.
\<close>

definition get_tasks :: "faults \<Rightarrow> world \<Rightarrow> outcome \<times> world" where
  "get_tasks F w =
    (case redis_get F cacheKey w of
       (Inl e, w1) \<Rightarrow> (res_json 500 (error_body msg_list_failed), w1)
     | (Inr cachedData, w1) \<Rightarrow>
         (case cachedData of
            None \<Rightarrow> get_tasks_miss F w1
          | Some s \<Rightarrow>
              if s \<noteq> [] then
                (case JSON_parse s of
                   None \<Rightarrow> (res_json 500 (error_body msg_list_failed), w1)
                 | Some v \<Rightarrow> (res_json 200 v, w1))
              else get_tasks_miss F w1))"

text \<open>
  \<open>POST /tasks\<close>. The request body is the object \<open>req.body\<close>, read by field name; a
  field that is not there reads as \<open>undefined\<close>, here \<open>None\<close>. There is no \<open>try\<close>
  around the awaited calls.
  \<^verbatim>\<open>
    const { description } = req.body;
    if (!description) return res.status(400).json({ error: ... });
    const task = await Task.create({ description, completed: false });
    await redisClient.del('tasks:all');
    res.status(201).json(task);
  \<close>
\<close>

definition post_tasks :: "faults \<Rightarrow> (string \<rightharpoonup> json) \<Rightarrow> world \<Rightarrow> outcome \<times> world" where
  "post_tasks F body w =
    (case body ''description'' of
       None \<Rightarrow> (res_json 400 (error_body msg_description_required), w)
     | Some d \<Rightarrow>
         if \<not> truthy d then (res_json 400 (error_body msg_description_required), w)
         else
           (case Task_create F d False w of
              (Inl e, w1) \<Rightarrow> (Rejected e, w1)
            | (Inr t, w1) \<Rightarrow>
                (case redis_del F cacheKey w1 of
                   (Inl e, w2) \<Rightarrow> (Rejected e, w2)
                 | (Inr u, w2) \<Rightarrow> (res_json 201 (task_json t), w2))))"

text \<open>
  \<open>GET /tasks/:id\<close>. The path parameter is taken as the identifier it denotes.
  \<^verbatim>\<open>
    const task = await Task.findByPk(req.params.id);
    if (!task) return res.status(404).json({ error: ... });
    res.json(task);
  \<close>
\<close>

definition get_tasks_id :: "faults \<Rightarrow> nat \<Rightarrow> world \<Rightarrow> outcome \<times> world" where
  "get_tasks_id F i w =
    (case Task_findByPk F i w of
       (Inl e, w1) \<Rightarrow> (Rejected e, w1)
     | (Inr None, w1) \<Rightarrow> (res_json 404 (error_body msg_not_found), w1)
     | (Inr (Some t), w1) \<Rightarrow> (res_json 200 (task_json t), w1))"

text \<open>
  \<open>PUT /tasks/:id\<close>:
  \<^verbatim>\<open>
    const { description, completed } = req.body;
    const task = await Task.findByPk(req.params.id);
    if (!task) return res.status(404).json({ error: ... });
    await task.update({ description, completed });
    await redisClient.del('tasks:all');
    res.json(task);
  \<close>
\<close>

definition put_tasks_id ::
    "faults \<Rightarrow> nat \<Rightarrow> (string \<rightharpoonup> json) \<Rightarrow> world \<Rightarrow> outcome \<times> world" where
  "put_tasks_id F i body w =
    (case Task_findByPk F i w of
       (Inl e, w1) \<Rightarrow> (Rejected e, w1)
     | (Inr None, w1) \<Rightarrow> (res_json 404 (error_body msg_not_found), w1)
     | (Inr (Some t), w1) \<Rightarrow>
         (case task_update F t (body ''description'') (body ''completed'') w1 of
            (Inl e, w2) \<Rightarrow> (Rejected e, w2)
          | (Inr t', w2) \<Rightarrow>
              (case redis_del F cacheKey w2 of
                 (Inl e, w3) \<Rightarrow> (Rejected e, w3)
               | (Inr u, w3) \<Rightarrow> (res_json 200 (task_json t'), w3))))"

text \<open>
  \<open>DELETE /tasks/:id\<close>:
  \<^verbatim>\<open>
    const deleted = await Task.destroy({ where: { id: req.params.id } });
    if (!deleted) return res.status(404).json({ error: ... });
    await redisClient.del('tasks:all');
    res.status(204).send();
  \<close>
\<close>

definition delete_tasks_id :: "faults \<Rightarrow> nat \<Rightarrow> world \<Rightarrow> outcome \<times> world" where
  "delete_tasks_id F i w =
    (case Task_destroy F i w of
       (Inl e, w1) \<Rightarrow> (Rejected e, w1)
     | (Inr deleted, w1) \<Rightarrow>
         if deleted = 0 then (res_json 404 (error_body msg_not_found), w1)
         else
           (case redis_del F cacheKey w1 of
              (Inl e, w2) \<Rightarrow> (Rejected e, w2)
            | (Inr u, w2) \<Rightarrow> (res_send 204, w2)))"

text \<open>The state after start-up on an empty database and a cold cache.\<close>

definition empty_world :: world where
  "empty_world = \<lparr>rows = [], next_id = 1, cache = Map.empty, trace = []\<rparr>"

definition no_faults :: faults where
  "no_faults c = False"

definition only_fails :: "call \<Rightarrow> faults" where
  "only_fails c x = (x = c)"

text \<open>A state with one task in the store and its listing in the cache.\<close>

definition milk :: task where
  "milk = \<lparr>task_id = 1, description = ''buy milk'', completed = False\<rparr>"

definition warm_world :: world where
  "warm_world =
     \<lparr>rows = [milk], next_id = 2,
      cache = [cacheKey \<mapsto> (JSON_stringify (tasks_json [milk]), 3600)], trace = []\<rparr>"

section \<open>Properties of the JSON codec\<close>

declare digits.simps [simp del]
declare parse_value.simps [simp del] parse_elements.simps [simp del] parse_members.simps [simp del]

subsection \<open>Decimal numerals\<close>

lemma lt10: "d < 10 \<Longrightarrow> d \<in> {0, 1, 2, 3, 4, 5, 6, 7, 8, 9::nat}"
  by auto

lemma digit_char_props:
  assumes "d < 10"
  shows "digit_val (digit_char d) = d" and "is_digit (digit_char d)"
    and "digit_char d = CHR ''0'' \<longleftrightarrow> d = 0"
  using lt10 [OF assms] by (auto simp: digit_val_def digit_char_def is_digit_def)

lemma digits_all_digit: "list_all is_digit (digits n)"
proof (induction n rule: digits.induct)
  case (1 n)
  show ?case
  proof (cases "n < 10")
    case True
    then show ?thesis by (simp add: digits.simps digit_char_props)
  next
    case False
    then have "list_all is_digit (digits (n div 10))" using 1 by simp
    moreover have "is_digit (digit_char (n mod 10))" by (simp add: digit_char_props)
    ultimately show ?thesis using False by (subst digits.simps) simp
  qed
qed

lemma digits_not_Nil: "digits n \<noteq> []"
  by (subst digits.simps) simp

lemma digits_val_snoc: "digits_val (ds @ [c]) = 10 * digits_val ds + digit_val c"
  by (simp add: digits_val_def)

lemma digits_val_digits: "digits_val (digits n) = n"
proof (induction n rule: digits.induct)
  case (1 n)
  show ?case
  proof (cases "n < 10")
    case True
    then show ?thesis by (simp add: digits.simps digits_val_def digit_char_props)
  next
    case False
    then have "digits_val (digits (n div 10)) = n div 10" using 1 by simp
    then have "digits_val (digits (n div 10) @ [digit_char (n mod 10)]) = n"
      by (simp add: digits_val_snoc digit_char_props)
    then show ?thesis using False by (subst digits.simps) simp
  qed
qed

lemma digits_leading_zero: "take 1 (digits n) = ''0'' \<Longrightarrow> n = 0"
proof (induction n rule: digits.induct)
  case (1 n)
  show ?case
  proof (cases "n < 10")
    case True
    then show ?thesis using "1.prems" by (simp add: digits.simps digit_char_props)
  next
    case False
    then have "take 1 (digits n) = take 1 (digits (n div 10))"
      using digits_not_Nil [of "n div 10"]
      by (subst digits.simps) (cases "digits (n div 10)", simp_all)
    then have "n div 10 = 0" using 1 False by simp
    then show ?thesis using False by simp
  qed
qed

lemma digits_length_zero: "1 < length (digits n) \<Longrightarrow> take 1 (digits n) \<noteq> ''0''"
proof
  assume a: "1 < length (digits n)" and b: "take 1 (digits n) = ''0''"
  from b have "n = 0" by (rule digits_leading_zero)
  then show False using a by (simp add: digits.simps)
qed


subsection \<open>Reading back a numeral\<close>

definition ends_token :: "string \<Rightarrow> bool" where
  "ends_token r \<longleftrightarrow>
     (case r of [] \<Rightarrow> True
      | c # _ \<Rightarrow> c = CHR '','' \<or> c = CHR '']'' \<or> c = CHR ''}'')"

lemma takeWhile_digits:
  assumes "ends_token r"
  shows "takeWhile is_digit (digits n @ r) = digits n"
    and "dropWhile is_digit (digits n @ r) = r"
proof -
  have d: "\<forall>c \<in> set (digits n). is_digit c"
    using digits_all_digit [of n] by (simp add: list_all_iff)
  have r: "takeWhile is_digit r = []" "dropWhile is_digit r = r"
    using assms by (cases r; auto simp: ends_token_def is_digit_def)+
  show "takeWhile is_digit (digits n @ r) = digits n"
    using d r by simp
  show "dropWhile is_digit (digits n @ r) = r"
    using d r by simp
qed

lemma digits_head: "\<exists>c cs. digits n = c # cs \<and> is_digit c"
  using digits_all_digit [of n] digits_not_Nil [of n] by (cases "digits n") auto

lemma parse_digits_digits:
  assumes "ends_token r"
  shows "parse_digits (digits n @ r) = Some (n, r)"
proof -
  have lz: "\<not> (take 1 (digits n) = ''0'' \<and> 1 < length (digits n))"
    using digits_length_zero by blast
  have r: "take 1 r \<noteq> ''.''" "take 1 r \<noteq> ''e''" "take 1 r \<noteq> ''E''"
    using assms by (cases r; auto simp: ends_token_def)+
  show ?thesis
    unfolding parse_digits_def Let_def takeWhile_digits [OF assms]
    using lz r digits_not_Nil [of n] by (simp add: digits_val_digits)
qed

lemma parse_number_digits:
  assumes "ends_token r"
  shows "parse_number (digits n @ r) = Some (JNum (int n), r)"
proof -
  obtain c cs where c: "digits n = c # cs" "is_digit c" using digits_head by blast
  then have neg: "c \<noteq> CHR ''-''" by (auto simp: is_digit_def)
  have "parse_number ((c # cs) @ r)
          = map_option (apfst (\<lambda>n. JNum (int n))) (parse_digits ((c # cs) @ r))"
    using neg by (simp add: parse_number_def)
  then show ?thesis
    using parse_digits_digits [OF assms, of n] by (simp add: c(1))
qed

lemma parse_value_digits:
  assumes "ends_token r"
  shows "parse_value (Suc k) (digits n @ r) = Some (JNum (int n), r)"
proof -
  obtain c cs where c: "digits n = c # cs" "is_digit c" using digits_head by blast
  have ws: "skip_ws (c # cs @ r) = c # cs @ r"
    using c(2) by (auto simp: skip_ws_def is_ws_def is_digit_def)
  have ne: "c \<noteq> CHR ''[''" "c \<noteq> CHR ''{''" "c \<noteq> CHR 0x22" "c \<noteq> CHR ''t''"
      "c \<noteq> CHR ''f''" "c \<noteq> CHR ''n''"
    using c(2) by (auto simp: is_digit_def)
  have "parse_value (Suc k) ((c # cs) @ r) = parse_number ((c # cs) @ r)"
    by (simp add: parse_value.simps ws ne)
  then show ?thesis using parse_number_digits [OF assms, of n] by (simp add: c(1))
qed


subsection \<open>Reading back a quoted string\<close>

lemma lt16: "d < 16 \<Longrightarrow> d \<in> {0, 1, 2, 3, 4, 5, 6, 7, 8, 9, 10, 11, 12, 13, 14, 15::nat}"
  by simp arith

lemma hex_val_hex_char: "d < 16 \<Longrightarrow> hex_val (hex_char d) = Some d"
  by (drule lt16) (auto simp: hex_val_def hex_char_def)

lemma hex4_control:
  assumes "(of_char c :: nat) < 32"
  shows "hex4 (CHR ''0'') (CHR ''0'') (hex_char (of_char c div 16)) (hex_char (of_char c mod 16))
           = Some c"
proof -
  define n where "n = (of_char c :: nat)"
  have n: "n < 32" using assms by (simp add: n_def)
  have z: "hex_val (CHR ''0'') = Some 0" by (simp add: hex_val_def)
  have hi: "hex_val (hex_char (n div 16)) = Some (n div 16)"
    using n by (intro hex_val_hex_char) simp
  have lo: "hex_val (hex_char (n mod 16)) = Some (n mod 16)"
    by (intro hex_val_hex_char) simp
  have "hex4 (CHR ''0'') (CHR ''0'') (hex_char (n div 16)) (hex_char (n mod 16))
          = Some (char_of n)"
    using n by (simp add: hex4_def z hi lo)
  then show ?thesis by (simp add: n_def)
qed

lemma parse_chars_escape_char:
  "parse_chars (escape_char c @ s) = map_option (apfst ((#) c)) (parse_chars s)"
proof -
  consider (quote) "c = CHR 0x22" | (bs) "c = CHR 0x5C" | (b) "c = CHR 0x08"
    | (f) "c = CHR 0x0C" | (n) "c = CHR 0x0A" | (r) "c = CHR 0x0D" | (t) "c = CHR 0x09"
    | (ctl) "c \<notin> {CHR 0x22, CHR 0x5C, CHR 0x08, CHR 0x0C, CHR 0x0A, CHR 0x0D, CHR 0x09}"
        "(of_char c :: nat) < 32"
    | (plain) "c \<notin> {CHR 0x22, CHR 0x5C, CHR 0x08, CHR 0x0C, CHR 0x0A, CHR 0x0D, CHR 0x09}"
        "\<not> (of_char c :: nat) < 32"
    by blast
  then show ?thesis
  proof cases
    case ctl
    then show ?thesis by (simp add: escape_char_def hex4_control)
  next
    case plain
    then show ?thesis by (simp add: escape_char_def)
  qed (simp_all add: escape_char_def unescape_def)
qed

lemma parse_chars_escaped:
  "parse_chars (concat (map escape_char s) @ CHR 0x22 # r) = Some (s, r)"
  by (induction s) (simp_all add: parse_chars_escape_char)

lemma parse_value_quote:
  "parse_value (Suc k) (quote s @ r) = Some (JStr s, r)"
  by (simp add: parse_value.simps quote_def skip_ws_def is_ws_def parse_chars_escaped)


subsection \<open>Reading back a task and a listing\<close>

lemma stringify_task:
  "JSON_stringify (task_json t) =
     CHR ''{'' # quote ''id'' @ CHR '':'' # digits (task_id t) @ CHR '','' #
       quote ''description'' @ CHR '':'' # quote (description t) @ CHR '','' #
       quote ''completed'' @ CHR '':'' # (if completed t then ''true'' else ''false'') @ ''}''"
  by (simp add: task_json_def show_int_def)

lemma parse_members_quote:
  "parse_members (Suc n) (quote k @ CHR '':'' # s) =
     (case parse_value n s of
        None \<Rightarrow> None
      | Some (v, s4) \<Rightarrow>
          (case skip_ws s4 of
             [] \<Rightarrow> None
           | d # s5 \<Rightarrow>
               if d = CHR '','' then map_option (apfst ((#) (k, v))) (parse_members n s5)
               else if d = CHR ''}'' then Some ([(k, v)], s5)
               else None))"
  by (simp add: parse_members.simps quote_def skip_ws_def is_ws_def parse_chars_escaped)

lemma parse_value_bool:
  "parse_value (Suc k) ((if b then ''true'' else ''false'') @ r) = Some (JBool b, r)"
  by (simp add: parse_value.simps skip_ws_def is_ws_def strip_prefix_def)

lemma skip_ws_sep [simp]:
  "skip_ws [] = []"
  "skip_ws (CHR '','' # s) = CHR '','' # s"
  "skip_ws (CHR ''}'' # s) = CHR ''}'' # s"
  "skip_ws (CHR '']'' # s) = CHR '']'' # s"
  "skip_ws (CHR ''{'' # s) = CHR ''{'' # s"
  "skip_ws (CHR ''['' # s) = CHR ''['' # s"
  "skip_ws (CHR 0x22 # s) = CHR 0x22 # s"
  by (simp_all add: skip_ws_def is_ws_def)

lemma ends_token_sep [simp]:
  "ends_token (CHR '','' # s)" "ends_token (CHR ''}'' # s)" "ends_token (CHR '']'' # s)"
  by (simp_all add: ends_token_def)

lemma js_object_task:
  "js_object [(''id'', a), (''description'', b), (''completed'', c)]
     = [(''id'', a), (''description'', b), (''completed'', c)]"
  by (simp add: js_object_def is_array_index_def is_digit_def)

lemma parse_members_task:
  "parse_members (Suc (Suc (Suc (Suc k))))
     (quote ''id'' @ CHR '':'' # digits (task_id t) @ CHR '','' #
       quote ''description'' @ CHR '':'' # quote (description t) @ CHR '','' #
       quote ''completed'' @ CHR '':'' # (if completed t then ''true'' else ''false'') @ CHR ''}'' # r)
     = Some ([(''id'', JNum (int (task_id t))), (''description'', JStr (description t)),
              (''completed'', JBool (completed t))], r)"
proof -
  define tc where
    "tc = quote ''completed'' @ CHR '':'' # (if completed t then ''true'' else ''false'') @ CHR ''}'' # r"
  define td where
    "td = quote ''description'' @ CHR '':'' # quote (description t) @ CHR '','' # tc"
  have c: "parse_members (Suc (Suc k)) tc = Some ([(''completed'', JBool (completed t))], r)"
    unfolding tc_def by (simp only: parse_members_quote parse_value_bool) simp
  have d: "parse_members (Suc (Suc (Suc k))) td
      = Some ([(''description'', JStr (description t)), (''completed'', JBool (completed t))], r)"
    unfolding td_def by (simp only: parse_members_quote parse_value_quote) (simp add: c)
  have "parse_members (Suc (Suc (Suc (Suc k))))
      (quote ''id'' @ CHR '':'' # digits (task_id t) @ CHR '','' # td)
      = Some ([(''id'', JNum (int (task_id t))), (''description'', JStr (description t)),
              (''completed'', JBool (completed t))], r)"
    by (simp only: parse_members_quote parse_value_digits [OF ends_token_sep(1)]) (simp add: d)
  then show ?thesis by (simp only: td_def tc_def)
qed

lemma parse_value_task:
  "parse_value (Suc (Suc (Suc (Suc (Suc k))))) (JSON_stringify (task_json t) @ r)
     = Some (task_json t, r)"
proof -
  have q: "quote ''id'' = CHR 0x22 # ''id'' @ [CHR 0x22]"
    by (simp add: quote_def escape_char_def)
  have "parse_value (Suc (Suc (Suc (Suc (Suc k))))) (JSON_stringify (task_json t) @ r)
      = map_option (apfst (\<lambda>ms. JObj (js_object ms)))
          (parse_members (Suc (Suc (Suc (Suc k))))
            (quote ''id'' @ CHR '':'' # digits (task_id t) @ CHR '','' #
             quote ''description'' @ CHR '':'' # quote (description t) @ CHR '','' #
             quote ''completed'' @ CHR '':'' # (if completed t then ''true'' else ''false'')
               @ CHR ''}'' # r))"
    by (simp add: parse_value.simps stringify_task q)
  then show ?thesis
    by (simp only: parse_members_task) (simp add: js_object_task task_json_def)
qed

lemma parse_value_task_fuel:
  assumes "5 \<le> m"
  shows "parse_value m (JSON_stringify (task_json t) @ r) = Some (task_json t, r)"
proof -
  from assms have "m = Suc (Suc (Suc (Suc (Suc (m - 5)))))" by linarith
  then show ?thesis by (metis parse_value_task)
qed

lemma parse_elements_tasks:
  "5 + length ts \<le> m \<Longrightarrow>
     parse_elements (Suc m) (join_comma (map (\<lambda>t. JSON_stringify (task_json t)) (t # ts))
        @ CHR '']'' # r)
     = Some (map task_json (t # ts), r)"
proof (induction ts arbitrary: t m)
  case Nil
  then show ?case by (simp add: parse_elements.simps parse_value_task_fuel)
next
  case (Cons u us)
  from Cons.prems obtain m' where m: "m = Suc m'" "5 + length us \<le> m'"
    by (cases m) auto
  have v: "parse_value m (JSON_stringify (task_json t) @ s) = Some (task_json t, s)" for s
    using Cons.prems by (intro parse_value_task_fuel) simp
  have "parse_elements m (join_comma (map (\<lambda>t. JSON_stringify (task_json t)) (u # us))
           @ CHR '']'' # r) = Some (map task_json (u # us), r)"
    unfolding m(1) by (rule Cons.IH [OF m(2)])
  then show ?case
    by (simp add: parse_elements.simps v)
qed

lemma length_stringify_task: "5 \<le> length (JSON_stringify (task_json t))"
  by (simp add: stringify_task quote_def)

lemma length_join_comma:
  "list_all (\<lambda>x. 5 \<le> length x) xs \<Longrightarrow> 5 * length xs \<le> length (join_comma xs)"
  by (induction xs rule: join_comma.induct) simp_all

lemma JSON_parse_stringify_tasks:
  "JSON_parse (JSON_stringify (tasks_json ts)) = Some (tasks_json ts)"
proof (cases ts)
  case Nil
  then show ?thesis by (simp add: JSON_parse_def tasks_json_def parse_value.simps)
next
  case (Cons t us)
  define body where "body = join_comma (map (\<lambda>t. JSON_stringify (task_json t)) (t # us))"
  have shape: "JSON_stringify (tasks_json ts) = CHR ''['' # body @ [CHR '']'']"
    by (simp add: Cons tasks_json_def body_def comp_def)
  have "5 * length (t # us) \<le> length body"
    unfolding body_def using length_join_comma [of "map (\<lambda>t. JSON_stringify (task_json t)) (t # us)"]
    by (simp add: list_all_iff length_stringify_task)
  then have fuel: "5 + length us \<le> Suc (length body)" by simp
  obtain cs where b: "JSON_stringify (task_json t) = CHR ''{'' # cs"
    by (simp add: stringify_task)
  have hd_body: "\<exists>bs. body = CHR ''{'' # bs"
    unfolding body_def by (cases us) (simp_all add: b)
  then obtain bs where bs: "body = CHR ''{'' # bs" by blast
  have el: "parse_elements (Suc (Suc (length body))) (body @ CHR '']'' # [])
           = Some (map task_json (t # us), [])"
    unfolding body_def using fuel [unfolded body_def] by (intro parse_elements_tasks) simp
  have len: "length (CHR ''['' # body @ [CHR '']'']) = Suc (Suc (length body))" by simp
  have tj: "tasks_json ts = JArr (map task_json (t # us))"
    by (simp add: tasks_json_def Cons)
  have "parse_value (Suc (Suc (Suc (length body)))) (CHR ''['' # body @ [CHR '']''])
          = map_option (apfst JArr) (parse_elements (Suc (Suc (length body))) (body @ [CHR '']'']))"
    by (simp add: parse_value.simps bs)
  then have pv: "parse_value (Suc (Suc (Suc (length body)))) (CHR ''['' # body @ [CHR '']''])
          = Some (JArr (map task_json (t # us)), [])"
    by (simp only: el) simp
  show ?thesis
    by (simp only: JSON_parse_def shape len pv) (simp add: tj)
qed

subsection \<open>The fuel of the reader is enough\<close>

text \<open>
  A successful run of the reader consumes at least one character for each unit of fuel
  it needs: whatever some amount of fuel parses, the fuel \<open>JSON_parse\<close> starts with
  parses as well. So \<open>JSON_parse\<close> answers \<open>None\<close> only for a text that the grammar
  above rejects.
\<close>

lemma skip_ws_Cons_length: "skip_ws s = c # cs \<Longrightarrow> length cs < length s"
  using length_dropWhile_le [of is_ws s] by (simp add: skip_ws_def)

lemma parse_chars_length: "parse_chars s = Some (k, r) \<Longrightarrow> length r < length s"
proof (induction s arbitrary: k r rule: parse_chars.induct)
  case 1
  then show ?case by simp
next
  case (2 c cs)
  then show ?case
    by (auto split: if_splits list.splits option.splits) fastforce+
qed

lemma strip_prefix_length: "strip_prefix p s = Some r \<Longrightarrow> length r \<le> length s"
  by (auto simp: strip_prefix_def split: if_splits)

lemma parse_digits_length: "parse_digits s = Some (n, r) \<Longrightarrow> length r < length s"
proof -
  assume a: "parse_digits s = Some (n, r)"
  then have "takeWhile is_digit s \<noteq> []" and "r = dropWhile is_digit s"
    by (auto simp: parse_digits_def Let_def split: if_splits)
  moreover have "length (takeWhile is_digit s) + length (dropWhile is_digit s) = length s"
    by (metis length_append takeWhile_dropWhile_id)
  ultimately show ?thesis by (cases "takeWhile is_digit s") auto
qed

lemma parse_number_length: "parse_number s = Some (v, r) \<Longrightarrow> length r < length s"
  by (auto simp: parse_number_def split: list.splits if_splits dest!: parse_digits_length)

lemma parse_value_Suc_cases:
  assumes "parse_value (Suc n) s = Some (v, r)"
  obtains (arr) cs vs where "skip_ws s = CHR ''['' # cs" "parse_elements n cs = Some (vs, r)"
      "v = JArr vs" "\<And>j. parse_value (Suc j) s = map_option (apfst JArr) (parse_elements j cs)"
  | (obj) cs ms where "skip_ws s = CHR ''{'' # cs" "parse_members n cs = Some (ms, r)"
      "v = JObj (js_object ms)"
      "\<And>j. parse_value (Suc j) s
         = map_option (apfst (\<lambda>ms. JObj (js_object ms))) (parse_members j cs)"
  | (flat) "length r < length s" "\<And>j. parse_value (Suc j) s = Some (v, r)"
proof (cases "skip_ws s")
  case Nil
  with assms show ?thesis by (simp add: parse_value.simps)
next
  case s: (Cons c cs)
  note len = skip_ws_Cons_length [OF s]
  have same: "parse_value (Suc j) s = Some (v, r)" if "\<And>i. parse_value (Suc i) s = parse_value (Suc n) s" for j
    using that assms by simp
  show ?thesis
  proof (cases "c = CHR ''['' \<or> c = CHR ''{''")
    case False
    then have eq: "parse_value (Suc i) s = parse_value (Suc n) s" for i
      using s by (simp add: parse_value.simps(2) [of n] parse_value.simps(2) [of i])
    have "length r \<le> length cs"
      using assms s False
      by (auto simp: parse_value.simps(2) [of n] split: if_splits
          dest!: parse_chars_length strip_prefix_length parse_number_length)
    then show ?thesis using len same [OF eq] by (intro flat) auto
  next
    case True
    show ?thesis
    proof (cases "skip_ws cs")
      case Nil
      with assms s True show ?thesis by (auto simp: parse_value.simps(2) [of n])
    next
      case cs: (Cons d ds)
      note len' = skip_ws_Cons_length [OF cs]
      consider (a) "c = CHR ''[''" "d = CHR '']''" | (a') "c = CHR ''[''" "d \<noteq> CHR '']''"
        | (b) "c = CHR ''{''" "d = CHR ''}''" | (b') "c = CHR ''{''" "d \<noteq> CHR ''}''"
        using True by blast
      then show ?thesis
      proof cases
        case a
        then have eq: "parse_value (Suc i) s = parse_value (Suc n) s" for i
          using s cs by (simp add: parse_value.simps(2) [of n] parse_value.simps(2) [of i])
        have "r = ds" using assms s cs a by (simp add: parse_value.simps(2) [of n])
        then show ?thesis using len len' same [OF eq] by (intro flat) auto
      next
        case b
        then have eq: "parse_value (Suc i) s = parse_value (Suc n) s" for i
          using s cs by (simp add: parse_value.simps(2) [of n] parse_value.simps(2) [of i])
        have "r = ds" using assms s cs b by (simp add: parse_value.simps(2) [of n])
        then show ?thesis using len len' same [OF eq] by (intro flat) auto
      next
        case a'
        then have sh: "parse_value (Suc j) s = map_option (apfst JArr) (parse_elements j cs)" for j
          using s cs by (simp add: parse_value.simps(2) [of j])
        with assms obtain vs where "parse_elements n cs = Some (vs, r)" "v = JArr vs"
          by auto
        then show ?thesis using s a' sh by (intro arr [of cs vs]) auto
      next
        case b'
        then have sh: "parse_value (Suc j) s
            = map_option (apfst (\<lambda>ms. JObj (js_object ms))) (parse_members j cs)" for j
          using s cs by (simp add: parse_value.simps(2) [of j])
        with assms obtain ms where "parse_members n cs = Some (ms, r)" "v = JObj (js_object ms)"
          by auto
        then show ?thesis using s b' sh by (intro obj [of cs ms]) auto
      qed
    qed
  qed
qed

lemma parse_elements_Suc_cases:
  assumes "parse_elements (Suc n) s = Some (vs, r)"
  obtains (last) v r1 where "parse_value n s = Some (v, r1)" "skip_ws r1 = CHR '']'' # r"
      "vs = [v]"
  | (more) v r1 cs vs' where "parse_value n s = Some (v, r1)" "skip_ws r1 = CHR '','' # cs"
      "parse_elements n cs = Some (vs', r)" "vs = v # vs'"
  using assms
  by (auto simp: parse_elements.simps(2) [of n] split: option.splits list.splits if_splits)

lemma parse_elements_Suc_last:
  "parse_value j s = Some (v, r1) \<Longrightarrow> skip_ws r1 = CHR '']'' # r \<Longrightarrow>
     parse_elements (Suc j) s = Some ([v], r)"
  by (simp add: parse_elements.simps(2) [of j])

lemma parse_elements_Suc_more:
  "parse_value j s = Some (v, r1) \<Longrightarrow> skip_ws r1 = CHR '','' # cs \<Longrightarrow>
     parse_elements j cs = Some (vs', r) \<Longrightarrow> parse_elements (Suc j) s = Some (v # vs', r)"
  by (simp add: parse_elements.simps(2) [of j])

lemma parse_members_Suc_cases:
  assumes "parse_members (Suc n) s = Some (ms, r)"
  obtains (last) s1 k s2 s3 v r1 where "skip_ws s = CHR 0x22 # s1" "parse_chars s1 = Some (k, s2)"
      "skip_ws s2 = CHR '':'' # s3" "parse_value n s3 = Some (v, r1)"
      "skip_ws r1 = CHR ''}'' # r" "ms = [(k, v)]"
  | (more) s1 k s2 s3 v r1 cs ms' where "skip_ws s = CHR 0x22 # s1"
      "parse_chars s1 = Some (k, s2)" "skip_ws s2 = CHR '':'' # s3"
      "parse_value n s3 = Some (v, r1)" "skip_ws r1 = CHR '','' # cs"
      "parse_members n cs = Some (ms', r)" "ms = (k, v) # ms'"
  using assms
  by (auto simp: parse_members.simps(2) [of n] split: option.splits list.splits if_splits)

lemma parse_members_Suc_last:
  "skip_ws s = CHR 0x22 # s1 \<Longrightarrow> parse_chars s1 = Some (k, s2) \<Longrightarrow>
   skip_ws s2 = CHR '':'' # s3 \<Longrightarrow> parse_value j s3 = Some (v, r1) \<Longrightarrow>
   skip_ws r1 = CHR ''}'' # r \<Longrightarrow> parse_members (Suc j) s = Some ([(k, v)], r)"
  by (simp add: parse_members.simps(2) [of j])

lemma parse_members_Suc_more:
  "skip_ws s = CHR 0x22 # s1 \<Longrightarrow> parse_chars s1 = Some (k, s2) \<Longrightarrow>
   skip_ws s2 = CHR '':'' # s3 \<Longrightarrow> parse_value j s3 = Some (v, r1) \<Longrightarrow>
   skip_ws r1 = CHR '','' # cs \<Longrightarrow> parse_members j cs = Some (ms', r) \<Longrightarrow>
   parse_members (Suc j) s = Some ((k, v) # ms', r)"
  by (simp add: parse_members.simps(2) [of j])

lemma parse_fuel_enough:
  "(\<forall>s v r. parse_value n s = Some (v, r) \<longrightarrow>
      length r < length s \<and> (\<forall>j. length s - length r \<le> j \<longrightarrow> parse_value j s = Some (v, r)))
   \<and> (\<forall>s vs r. parse_elements n s = Some (vs, r) \<longrightarrow>
      length r < length s \<and> (\<forall>j. length s - length r \<le> j \<longrightarrow> parse_elements j s = Some (vs, r)))
   \<and> (\<forall>s ms r. parse_members n s = Some (ms, r) \<longrightarrow>
      length r < length s \<and> (\<forall>j. length s - length r \<le> j \<longrightarrow> parse_members j s = Some (ms, r)))"
proof (induction n)
  case 0
  show ?case by (simp add: parse_value.simps parse_elements.simps parse_members.simps)
next
  case (Suc n)
  then have v: "\<And>s v r. parse_value n s = Some (v, r) \<Longrightarrow> length r < length s"
    and v': "\<And>s v r j. parse_value n s = Some (v, r) \<Longrightarrow> length s - length r \<le> j \<Longrightarrow>
               parse_value j s = Some (v, r)"
    and e: "\<And>s vs r. parse_elements n s = Some (vs, r) \<Longrightarrow> length r < length s"
    and e': "\<And>s vs r j. parse_elements n s = Some (vs, r) \<Longrightarrow> length s - length r \<le> j \<Longrightarrow>
               parse_elements j s = Some (vs, r)"
    and m: "\<And>s ms r. parse_members n s = Some (ms, r) \<Longrightarrow> length r < length s"
    and m': "\<And>s ms r j. parse_members n s = Some (ms, r) \<Longrightarrow> length s - length r \<le> j \<Longrightarrow>
               parse_members j s = Some (ms, r)"
    by blast+
  have "length r < length s \<and> (\<forall>j. length s - length r \<le> j \<longrightarrow> parse_value j s = Some (v, r))"
    if a: "parse_value (Suc n) s = Some (v, r)" for s v r
    using a
  proof (cases rule: parse_value_Suc_cases)
    case (arr cs vs)
    note l1 = skip_ws_Cons_length [OF arr(1)] and l2 = e [OF arr(2)]
    have "parse_value j s = Some (v, r)" if "length s - length r \<le> j" for j
    proof -
      from that l1 l2 obtain i where j: "j = Suc i" "length cs - length r \<le> i"
        by (cases j) auto
      show ?thesis unfolding j(1) arr(4) using e' [OF arr(2) j(2)] arr(3) by simp
    qed
    then show ?thesis using l1 l2 by auto
  next
    case (obj cs ms)
    note l1 = skip_ws_Cons_length [OF obj(1)] and l2 = m [OF obj(2)]
    have "parse_value j s = Some (v, r)" if "length s - length r \<le> j" for j
    proof -
      from that l1 l2 obtain i where j: "j = Suc i" "length cs - length r \<le> i"
        by (cases j) auto
      show ?thesis unfolding j(1) obj(4) using m' [OF obj(2) j(2)] obj(3) by simp
    qed
    then show ?thesis using l1 l2 by auto
  next
    case flat
    have "parse_value j s = Some (v, r)" if "length s - length r \<le> j" for j
      using that flat by (cases j) auto
    then show ?thesis using flat(1) by auto
  qed
  moreover
  have "length r < length s \<and> (\<forall>j. length s - length r \<le> j \<longrightarrow> parse_elements j s = Some (vs, r))"
    if a: "parse_elements (Suc n) s = Some (vs, r)" for s vs r
    using a
  proof (cases rule: parse_elements_Suc_cases)
    case (last u r1)
    note l1 = v [OF last(1)] and l2 = skip_ws_Cons_length [OF last(2)]
    have "parse_elements j s = Some (vs, r)" if "length s - length r \<le> j" for j
    proof -
      from that l1 l2 obtain i where j: "j = Suc i" "length s - length r1 \<le> i"
        by (cases j) auto
      show ?thesis unfolding j(1) last(3)
        by (rule parse_elements_Suc_last [OF v' [OF last(1) j(2)] last(2)])
    qed
    then show ?thesis using l1 l2 by auto
  next
    case (more u r1 cs vs')
    note l1 = v [OF more(1)] and l2 = skip_ws_Cons_length [OF more(2)] and l3 = e [OF more(3)]
    have "parse_elements j s = Some (vs, r)" if "length s - length r \<le> j" for j
    proof -
      from that l1 l2 l3 obtain i where j: "j = Suc i" "length s - length r1 \<le> i"
          "length cs - length r \<le> i"
        by (cases j) auto
      show ?thesis unfolding j(1) more(4)
        by (rule parse_elements_Suc_more
            [OF v' [OF more(1) j(2)] more(2) e' [OF more(3) j(3)]])
    qed
    then show ?thesis using l1 l2 l3 by auto
  qed
  moreover
  have "length r < length s \<and> (\<forall>j. length s - length r \<le> j \<longrightarrow> parse_members j s = Some (ms, r))"
    if a: "parse_members (Suc n) s = Some (ms, r)" for s ms r
    using a
  proof (cases rule: parse_members_Suc_cases)
    case (last s1 k s2 s3 u r1)
    note l0 = skip_ws_Cons_length [OF last(1)] parse_chars_length [OF last(2)]
        skip_ws_Cons_length [OF last(3)]
      and l1 = v [OF last(4)] and l2 = skip_ws_Cons_length [OF last(5)]
    have "parse_members j s = Some (ms, r)" if "length s - length r \<le> j" for j
    proof -
      from that l0 l1 l2 obtain i where j: "j = Suc i" "length s3 - length r1 \<le> i"
        by (cases j) auto
      show ?thesis unfolding j(1) last(6)
        by (rule parse_members_Suc_last [OF last(1-3) v' [OF last(4) j(2)] last(5)])
    qed
    then show ?thesis using l0 l1 l2 by auto
  next
    case (more s1 k s2 s3 u r1 cs ms')
    note l0 = skip_ws_Cons_length [OF more(1)] parse_chars_length [OF more(2)]
        skip_ws_Cons_length [OF more(3)]
      and l1 = v [OF more(4)] and l2 = skip_ws_Cons_length [OF more(5)] and l3 = m [OF more(6)]
    have "parse_members j s = Some (ms, r)" if "length s - length r \<le> j" for j
    proof -
      from that l0 l1 l2 l3 obtain i where j: "j = Suc i" "length s3 - length r1 \<le> i"
          "length cs - length r \<le> i"
        by (cases j) auto
      show ?thesis unfolding j(1) more(7)
        by (rule parse_members_Suc_more
            [OF more(1-3) v' [OF more(4) j(2)] more(5) m' [OF more(6) j(3)]])
    qed
    then show ?thesis using l0 l1 l2 l3 by auto
  qed
  ultimately show ?case by blast
qed

lemma JSON_parse_fuel:
  assumes "parse_value n s = Some (v, r)" and "skip_ws r = []"
  shows "JSON_parse s = Some v"
proof -
  have "parse_value (Suc (length s)) s = Some (v, r)"
    using parse_fuel_enough [of n] assms(1) by (meson diff_le_self le_SucI)
  then show ?thesis using assms(2) by (simp add: JSON_parse_def)
qed

subsection \<open>The codec at work\<close>

lemma stringify_milk:
  \<open>JSON_stringify (tasks_json [milk])
     = ''[{"id":1,"description":"buy milk","completed":false}]''\<close>
  by (simp add: tasks_json_def task_json_def milk_def show_int_def quote_def escape_char_def
      digits.simps digit_char_def)

lemma parse_milk:
  \<open>JSON_parse ''[{"id":1,"description":"buy milk","completed":false}]''
     = Some (tasks_json [milk])\<close>
  by (simp add: JSON_parse_def parse_value.simps parse_elements.simps parse_members.simps
      skip_ws_def is_ws_def parse_number_def parse_digits_def is_digit_def digits_val_def
      digit_val_def strip_prefix_def js_object_def is_array_index_def
      tasks_json_def task_json_def milk_def Let_def)

lemma parse_spaced:
  \<open>JSON_parse '' [ {"b" : true, "10" : null, "2" : "xA", "b" : [ ] } , -12 ] ''
     = Some (JArr [JObj [(''2'', JStr ''xA''), (''10'', JNull), (''b'', JArr [])],
                   JNum (- 12)])\<close>
  by (simp add: JSON_parse_def parse_value.simps parse_elements.simps parse_members.simps
      skip_ws_def is_ws_def parse_number_def parse_digits_def is_digit_def digits_val_def
      digit_val_def strip_prefix_def js_object_def is_array_index_def hex4_def hex_val_def
      unescape_def Let_def)

lemma stringify_list_failed:
  \<open>JSON_stringify (error_body msg_list_failed) = ''{"error":"Erro ao buscar tarefas"}''\<close>
  by (simp add: error_body_def msg_list_failed_def quote_def escape_char_def)

section \<open>The cache-aside protocol\<close>

subsection \<open>Auxiliary facts\<close>

lemma JSON_parse_Nil: "JSON_parse [] = None"
  by (simp add: JSON_parse_def parse_value.simps)

lemma find_absent:
  "i \<notin> set (map task_id ts) \<Longrightarrow> find (\<lambda>t. task_id t = i) ts = None"
  by (induction ts) auto

lemma filter_absent:
  assumes "i \<notin> set (map task_id ts)"
  shows "filter (\<lambda>t. task_id t = i) ts = []" and "filter (\<lambda>t. task_id t \<noteq> i) ts = ts"
  using assms by (induction ts) auto

lemma post_tasks_success:
  assumes "is_success (fst (post_tasks F body w))"
  shows "cache (snd (post_tasks F body w)) cacheKey = None"
    and "\<exists>d. trace (snd (post_tasks F body w)) = trace w @ [Ev_create d False, Ev_del cacheKey]"
  using assms
  by (auto simp: post_tasks_def Task_create_def redis_del_def logged_def is_success_def
      res_json_def Let_def split: option.splits json.splits if_splits)

lemma put_tasks_id_success:
  assumes "is_success (fst (put_tasks_id F i body w))"
  shows "cache (snd (put_tasks_id F i body w)) cacheKey = None"
    and "trace (snd (put_tasks_id F i body w)) =
           trace w @ [Ev_findByPk i, Ev_update i (body ''description'') (body ''completed''),
                      Ev_del cacheKey]"
proof -
  from assms obtain t where found: "find (\<lambda>t. task_id t = i) (rows w) = Some t"
    and ok: "\<not> F Sot_findByPk"
    by (auto simp: put_tasks_id_def Task_findByPk_def is_success_def res_json_def
        split: if_splits option.splits)
  then have id: "task_id t = i" by (auto simp: find_Some_iff)
  show "cache (snd (put_tasks_id F i body w)) cacheKey = None"
    using assms found ok
    by (auto simp: put_tasks_id_def Task_findByPk_def task_update_def redis_del_def logged_def
        is_success_def res_json_def Let_def split: option.splits json.splits if_splits)
  show "trace (snd (put_tasks_id F i body w)) =
           trace w @ [Ev_findByPk i, Ev_update i (body ''description'') (body ''completed''),
                      Ev_del cacheKey]"
    using assms found ok id
    by (auto simp: put_tasks_id_def Task_findByPk_def task_update_def redis_del_def logged_def
        is_success_def res_json_def Let_def split: option.splits json.splits if_splits)
qed

lemma delete_tasks_id_success:
  assumes "is_success (fst (delete_tasks_id F i w))"
  shows "cache (snd (delete_tasks_id F i w)) cacheKey = None"
    and "trace (snd (delete_tasks_id F i w)) = trace w @ [Ev_destroy i, Ev_del cacheKey]"
  using assms
  by (auto simp: delete_tasks_id_def Task_destroy_def redis_del_def logged_def is_success_def
      res_json_def res_send_def Let_def split: if_splits)

lemma post_warm:
  "post_tasks no_faults [''description'' \<mapsto> JStr ''walk dog''] warm_world =
    (Response 201
       (JSON_stringify (task_json \<lparr>task_id = 2, description = ''walk dog'', completed = False\<rparr>)),
     \<lparr>rows = [milk, \<lparr>task_id = 2, description = ''walk dog'', completed = False\<rparr>],
      next_id = 3, cache = Map.empty,
      trace = [Ev_create (JStr ''walk dog'') False, Ev_del cacheKey]\<rparr>)"
  by (simp add: post_tasks_def Task_create_def redis_del_def logged_def no_faults_def
      warm_world_def res_json_def Let_def)

lemma put_warm:
  "put_tasks_id no_faults 1 [''completed'' \<mapsto> JBool True] warm_world =
    (Response 200 (JSON_stringify (task_json (milk\<lparr>completed := True\<rparr>))),
     \<lparr>rows = [milk\<lparr>completed := True\<rparr>], next_id = 2, cache = Map.empty,
      trace = [Ev_findByPk 1, Ev_update 1 None (Some (JBool True)), Ev_del cacheKey]\<rparr>)"
  by (simp add: put_tasks_id_def Task_findByPk_def task_update_def redis_del_def logged_def
      no_faults_def warm_world_def res_json_def milk_def Let_def)

lemma delete_warm:
  "delete_tasks_id no_faults 1 warm_world =
    (Response 204 [],
     \<lparr>rows = [], next_id = 2, cache = Map.empty,
      trace = [Ev_destroy 1, Ev_del cacheKey]\<rparr>)"
  by (simp add: delete_tasks_id_def Task_destroy_def redis_del_def logged_def
      no_faults_def warm_world_def res_send_def milk_def)

lemma create_eviction_failure:
  assumes "body ''description'' = Some (JStr s)" and "s \<noteq> []"
    and "\<not> F Sot_create" and "F Redis_del"
  shows "post_tasks F body w =
    (Rejected CacheError,
     w\<lparr>rows := rows w @ [\<lparr>task_id = next_id w, description = s, completed = False\<rparr>],
       next_id := Suc (next_id w),
       trace := trace w @ [Ev_create (JStr s) False, Ev_del cacheKey]\<rparr>)"
  using assms
  by (simp add: post_tasks_def Task_create_def redis_del_def logged_def Let_def)

subsection \<open>Listing\<close>

text \<open>
  C1. In every state in which the snapshot key holds a snapshot, a text \<open>s\<close> that
  deserialises to \<open>v\<close>, and the cache lookup answers, \<open>GET /tasks\<close> responds 200 with
  \<open>v\<close>. The state after the request is the state before it with one more entry in the
  log, the cache read: the store is not queried and neither the store nor the cache
  changes. (Every snapshot the miss path writes deserialises, by
  \<open>JSON_parse_stringify_tasks\<close>.)
\<close>

theorem list_hit_serves_snapshot:
  assumes "\<not> F Redis_get"
    and "cache w cacheKey = Some (s, ttl)"
    and "JSON_parse s = Some v"
  shows "get_tasks F w =
    (Response 200 (JSON_stringify v), w\<lparr>trace := trace w @ [Ev_get cacheKey]\<rparr>)"
proof -
  have "s \<noteq> []" using assms(3) JSON_parse_Nil by auto
  then show ?thesis
    using assms by (simp add: get_tasks_def redis_get_def logged_def res_json_def)
qed

theorem list_hit_serves_snapshot_witness:
  \<open>get_tasks no_faults warm_world =
     (Response 200 ''[{"id":1,"description":"buy milk","completed":false}]'',
      warm_world\<lparr>trace := [Ev_get ''tasks:all'']\<rparr>)\<close>
proof -
  have f: "\<not> no_faults Redis_get" by (simp add: no_faults_def)
  have c: "cache warm_world cacheKey = Some (JSON_stringify (tasks_json [milk]), 3600)"
    by (simp add: warm_world_def)
  have p: "JSON_parse (JSON_stringify (tasks_json [milk])) = Some (tasks_json [milk])"
    by (simp only: stringify_milk parse_milk)
  show ?thesis
    using list_hit_serves_snapshot [of no_faults, OF f c p]
    by (simp add: warm_world_def stringify_milk cacheKey_def)
qed

text \<open>
  C2. In every state in which the snapshot key is absent, and with the cache and the
  store answering, \<open>GET /tasks\<close> queries the store for all tasks, serialises them,
  writes the text under the snapshot key with an expiry of 3600 seconds and responds 200
  with the rows just fetched. The log gains the cache read, the store query and the
  cache write, in this order.
\<close>

theorem list_miss_fills_cache:
  assumes "\<not> F Redis_get" and "\<not> F Sot_findAll" and "\<not> F Redis_setEx"
    and "cache w cacheKey = None"
  shows "get_tasks F w =
    (Response 200 (JSON_stringify (tasks_json (rows w))),
     w\<lparr>cache := (cache w)(cacheKey \<mapsto> (JSON_stringify (tasks_json (rows w)), 3600)),
       trace := trace w @ [Ev_get cacheKey, Ev_findAll,
                 Ev_setEx cacheKey 3600 (JSON_stringify (tasks_json (rows w)))]\<rparr>)"
  using assms
  by (simp add: get_tasks_def get_tasks_miss_def redis_get_def Task_findAll_def
      redis_setEx_def logged_def res_json_def)

theorem list_miss_fills_cache_witness:
  "get_tasks no_faults empty_world =
    (Response 200 ''[]'',
     \<lparr>rows = [], next_id = 1, cache = [''tasks:all'' \<mapsto> (''[]'', 3600)],
      trace = [Ev_get ''tasks:all'', Ev_findAll, Ev_setEx ''tasks:all'' 3600 ''[]'']\<rparr>)"
proof -
  have f: "\<not> no_faults Redis_get" "\<not> no_faults Sot_findAll" "\<not> no_faults Redis_setEx"
    by (simp_all add: no_faults_def)
  have c: "cache empty_world cacheKey = None" by (simp add: empty_world_def)
  show ?thesis
    using list_miss_fills_cache [of no_faults, OF f c]
    by (simp add: empty_world_def tasks_json_def cacheKey_def)
qed

text \<open>
  C9. For every content of the store: after a \<open>GET /tasks\<close> that misses and fills the
  cache, a second \<open>GET /tasks\<close> on the state the first one left (the entry still there,
  no write in between) sends the very same status and body. Parsing the stored text and
  serialising the result gives the stored text back, and the second request adds only
  its cache read to the log: the store is not queried again.
\<close>

theorem list_hit_repeats_miss:
  assumes "\<not> F Redis_get" and "\<not> F Sot_findAll" and "\<not> F Redis_setEx"
    and "cache w cacheKey = None"
  shows "fst (get_tasks F w) = Response 200 (JSON_stringify (tasks_json (rows w)))
     \<and> cache (snd (get_tasks F w)) cacheKey = Some (JSON_stringify (tasks_json (rows w)), 3600)
     \<and> map_option JSON_stringify (JSON_parse (JSON_stringify (tasks_json (rows w))))
         = Some (JSON_stringify (tasks_json (rows w)))
     \<and> get_tasks F (snd (get_tasks F w)) =
         (fst (get_tasks F w),
          (snd (get_tasks F w))\<lparr>trace := trace (snd (get_tasks F w)) @ [Ev_get cacheKey]\<rparr>)"
proof -
  let ?s = "JSON_stringify (tasks_json (rows w))"
  let ?w1 = "w\<lparr>cache := (cache w)(cacheKey \<mapsto> (?s, 3600)),
       trace := trace w @ [Ev_get cacheKey, Ev_findAll, Ev_setEx cacheKey 3600 ?s]\<rparr>"
  have miss: "get_tasks F w = (Response 200 ?s, ?w1)"
    using assms
    by (simp add: get_tasks_def get_tasks_miss_def redis_get_def Task_findAll_def
        redis_setEx_def logged_def res_json_def)
  have rt: "JSON_parse ?s = Some (tasks_json (rows w))"
    by (rule JSON_parse_stringify_tasks)
  have "?s \<noteq> []" by (simp add: tasks_json_def)
  then have hit: "get_tasks F ?w1 = (Response 200 ?s, ?w1\<lparr>trace := trace ?w1 @ [Ev_get cacheKey]\<rparr>)"
    using assms(1) rt by (simp add: get_tasks_def redis_get_def logged_def res_json_def)
  show ?thesis
    unfolding miss fst_conv snd_conv hit by (simp add: rt)
qed

theorem list_hit_repeats_miss_witness:
  \<open>fst (get_tasks no_faults (warm_world\<lparr>cache := Map.empty\<rparr>))
      = Response 200 ''[{"id":1,"description":"buy milk","completed":false}]''
   \<and> get_tasks no_faults (snd (get_tasks no_faults (warm_world\<lparr>cache := Map.empty\<rparr>))) =
       (Response 200 ''[{"id":1,"description":"buy milk","completed":false}]'',
        warm_world\<lparr>trace := [Ev_get cacheKey, Ev_findAll,
            Ev_setEx cacheKey 3600 ''[{"id":1,"description":"buy milk","completed":false}]'',
            Ev_get cacheKey]\<rparr>)\<close>
proof -
  have f: "\<not> no_faults Redis_get" "\<not> no_faults Sot_findAll" "\<not> no_faults Redis_setEx"
    by (simp_all add: no_faults_def)
  have c: "cache (warm_world\<lparr>cache := Map.empty\<rparr>) cacheKey = None" by simp
  have m: "snd (get_tasks no_faults (warm_world\<lparr>cache := Map.empty\<rparr>)) =
      warm_world\<lparr>trace := [Ev_get cacheKey, Ev_findAll,
            Ev_setEx cacheKey 3600 (JSON_stringify (tasks_json [milk]))]\<rparr>"
    by (simp add: get_tasks_def get_tasks_miss_def redis_get_def Task_findAll_def
        redis_setEx_def logged_def res_json_def no_faults_def warm_world_def)
  show ?thesis
    using list_hit_repeats_miss [of no_faults "warm_world\<lparr>cache := Map.empty\<rparr>", OF f c]
    by (simp add: m) (simp add: warm_world_def stringify_milk)
qed

text \<open>
  C6. When the cache lookup of \<open>GET /tasks\<close> fails, the response is the internal
  error 500 and the store is never queried: the failure is not taken for a miss. When the
  lookup misses, the store answers and the write of the snapshot fails, the response is
  again 500 instead of the rows that were fetched, and the cache is unchanged.
\<close>

theorem list_cache_failure_is_500:
  "(F Redis_get \<longrightarrow>
      get_tasks F w =
        (Response 500 (JSON_stringify (error_body msg_list_failed)),
         w\<lparr>trace := trace w @ [Ev_get cacheKey]\<rparr>))
   \<and> (\<not> F Redis_get \<and> cache w cacheKey = None \<and> \<not> F Sot_findAll \<and> F Redis_setEx \<longrightarrow>
      get_tasks F w =
        (Response 500 (JSON_stringify (error_body msg_list_failed)),
         w\<lparr>trace := trace w @ [Ev_get cacheKey, Ev_findAll,
                   Ev_setEx cacheKey 3600 (JSON_stringify (tasks_json (rows w)))]\<rparr>))"
  by (simp add: get_tasks_def get_tasks_miss_def redis_get_def Task_findAll_def
      redis_setEx_def logged_def res_json_def)

theorem list_cache_failure_is_500_witness:
  "get_tasks (only_fails Redis_get) warm_world =
     (Response 500 (JSON_stringify (error_body msg_list_failed)),
      warm_world\<lparr>trace := [Ev_get cacheKey]\<rparr>)
   \<and> get_tasks (only_fails Redis_setEx) (warm_world\<lparr>cache := Map.empty\<rparr>) =
     (Response 500 (JSON_stringify (error_body msg_list_failed)),
      warm_world\<lparr>cache := Map.empty,
        trace := [Ev_get cacheKey, Ev_findAll,
                  Ev_setEx cacheKey 3600 (JSON_stringify (tasks_json [milk]))]\<rparr>)"
proof -
  have a: "only_fails Redis_get Redis_get" by (simp add: only_fails_def)
  have b: "\<not> only_fails Redis_setEx Redis_get \<and> cache (warm_world\<lparr>cache := Map.empty\<rparr>) cacheKey = None
      \<and> \<not> only_fails Redis_setEx Sot_findAll \<and> only_fails Redis_setEx Redis_setEx"
    by (simp add: only_fails_def)
  show ?thesis
    using a b list_cache_failure_is_500 [of "only_fails Redis_get" warm_world]
      list_cache_failure_is_500 [of "only_fails Redis_setEx" "warm_world\<lparr>cache := Map.empty\<rparr>"]
    by (simp add: warm_world_def)
qed

subsection \<open>Mutations\<close>

text \<open>
  C3. Whenever \<open>POST /tasks\<close>, \<open>PUT /tasks/:id\<close> or \<open>DELETE /tasks/:id\<close>
  answers with a success status, the snapshot key is absent from the cache in the state
  the request leaves, and the log of the request ends with the write to the store
  followed by the eviction of the snapshot key: store first, eviction second.
\<close>

theorem mutation_success_evicts:
  "(is_success (fst (post_tasks F body w)) \<longrightarrow>
      cache (snd (post_tasks F body w)) cacheKey = None \<and>
      (\<exists>d. trace (snd (post_tasks F body w)) = trace w @ [Ev_create d False, Ev_del cacheKey]))
   \<and> (is_success (fst (put_tasks_id F i body w)) \<longrightarrow>
      cache (snd (put_tasks_id F i body w)) cacheKey = None \<and>
      trace (snd (put_tasks_id F i body w)) =
        trace w @ [Ev_findByPk i, Ev_update i (body ''description'') (body ''completed''),
                   Ev_del cacheKey])
   \<and> (is_success (fst (delete_tasks_id F i w)) \<longrightarrow>
      cache (snd (delete_tasks_id F i w)) cacheKey = None \<and>
      trace (snd (delete_tasks_id F i w)) = trace w @ [Ev_destroy i, Ev_del cacheKey])"
  using post_tasks_success [of F body w] put_tasks_id_success [of F i body w]
    delete_tasks_id_success [of F i w]
  by blast

theorem mutation_success_evicts_witness:
  "cache warm_world cacheKey \<noteq> None
   \<and> is_success (fst (post_tasks no_faults [''description'' \<mapsto> JStr ''walk dog''] warm_world))
   \<and> cache (snd (post_tasks no_faults [''description'' \<mapsto> JStr ''walk dog''] warm_world)) cacheKey
        = None
   \<and> is_success (fst (put_tasks_id no_faults 1 [''completed'' \<mapsto> JBool True] warm_world))
   \<and> cache (snd (put_tasks_id no_faults 1 [''completed'' \<mapsto> JBool True] warm_world)) cacheKey
        = None
   \<and> is_success (fst (delete_tasks_id no_faults 1 warm_world))
   \<and> cache (snd (delete_tasks_id no_faults 1 warm_world)) cacheKey = None"
proof -
  have a: "is_success (fst (post_tasks no_faults [''description'' \<mapsto> JStr ''walk dog''] warm_world))"
    unfolding post_warm by (simp add: is_success_def)
  have b: "is_success (fst (put_tasks_id no_faults 1 [''completed'' \<mapsto> JBool True] warm_world))"
    unfolding put_warm by (simp add: is_success_def)
  have c: "is_success (fst (delete_tasks_id no_faults 1 warm_world))"
    unfolding delete_warm by (simp add: is_success_def)
  have w: "cache warm_world cacheKey \<noteq> None" by (simp add: warm_world_def)
  show ?thesis
    using a b c w
      mutation_success_evicts [of no_faults "[''description'' \<mapsto> JStr ''walk dog'']" warm_world 1]
      mutation_success_evicts [of no_faults "[''completed'' \<mapsto> JBool True]" warm_world 1]
    by blast
qed

text \<open>
  C8. A \<open>POST /tasks\<close> with a non-empty description, the store and the cache
  answering, appends a task with the next identifier of the store, that description and
  \<open>completed = false\<close>, evicts the snapshot key, and responds 201 with the new record,
  identifier included.
\<close>

theorem create_inserts_and_evicts:
  assumes "body ''description'' = Some (JStr s)" and "s \<noteq> []"
    and "\<not> F Sot_create" and "\<not> F Redis_del"
  shows "post_tasks F body w =
    (Response 201
       (JSON_stringify (task_json \<lparr>task_id = next_id w, description = s, completed = False\<rparr>)),
     w\<lparr>rows := rows w @ [\<lparr>task_id = next_id w, description = s, completed = False\<rparr>],
       next_id := Suc (next_id w),
       cache := (cache w)(cacheKey := None),
       trace := trace w @ [Ev_create (JStr s) False, Ev_del cacheKey]\<rparr>)"
  using assms
  by (simp add: post_tasks_def Task_create_def redis_del_def logged_def res_json_def Let_def)

theorem create_inserts_and_evicts_witness:
  "post_tasks no_faults [''description'' \<mapsto> JStr ''buy milk''] empty_world =
    (Response 201 (JSON_stringify (task_json milk)),
     \<lparr>rows = [milk], next_id = 2, cache = Map.empty,
      trace = [Ev_create (JStr ''buy milk'') False, Ev_del cacheKey]\<rparr>)
   \<and> get_tasks no_faults
        \<lparr>rows = [milk], next_id = 2, cache = Map.empty,
         trace = [Ev_create (JStr ''buy milk'') False, Ev_del cacheKey]\<rparr> =
    (Response 200 (JSON_stringify (tasks_json [milk])),
     \<lparr>rows = [milk], next_id = 2,
      cache = [cacheKey \<mapsto> (JSON_stringify (tasks_json [milk]), 3600)],
      trace = [Ev_create (JStr ''buy milk'') False, Ev_del cacheKey, Ev_get cacheKey,
               Ev_findAll, Ev_setEx cacheKey 3600 (JSON_stringify (tasks_json [milk]))]\<rparr>)"
proof -
  have d: "[''description'' \<mapsto> JStr ''buy milk''] ''description'' = Some (JStr ''buy milk'')"
    by simp
  have n: "''buy milk'' \<noteq> []" by simp
  have f: "\<not> no_faults Sot_create" "\<not> no_faults Redis_del" by (simp_all add: no_faults_def)
  have "post_tasks no_faults [''description'' \<mapsto> JStr ''buy milk''] empty_world =
    (Response 201 (JSON_stringify (task_json milk)),
     \<lparr>rows = [milk], next_id = 2, cache = Map.empty,
      trace = [Ev_create (JStr ''buy milk'') False, Ev_del cacheKey]\<rparr>)"
    using create_inserts_and_evicts
      [of "[''description'' \<mapsto> JStr ''buy milk'']" "''buy milk''" no_faults empty_world,
       OF d n f]
    by (simp add: empty_world_def milk_def)
  moreover have "get_tasks no_faults
        \<lparr>rows = [milk], next_id = 2, cache = Map.empty,
         trace = [Ev_create (JStr ''buy milk'') False, Ev_del cacheKey]\<rparr> =
    (Response 200 (JSON_stringify (tasks_json [milk])),
     \<lparr>rows = [milk], next_id = 2,
      cache = [cacheKey \<mapsto> (JSON_stringify (tasks_json [milk]), 3600)],
      trace = [Ev_create (JStr ''buy milk'') False, Ev_del cacheKey, Ev_get cacheKey,
               Ev_findAll, Ev_setEx cacheKey 3600 (JSON_stringify (tasks_json [milk]))]\<rparr>)"
    by (simp add: get_tasks_def get_tasks_miss_def redis_get_def Task_findAll_def
        redis_setEx_def logged_def res_json_def no_faults_def)
  ultimately show ?thesis by (rule conjI)
qed

text \<open>
  C10. \<open>POST /tasks\<close> reads nothing but \<open>description\<close> from the request body: two
  bodies with the same description, whatever else they carry (a \<open>completed\<close> value
  among it), give the same response and the same state, and every row the request adds
  to the store has \<open>completed = false\<close>.
\<close>

theorem create_ignores_completed:
  assumes "b1 ''description'' = b2 ''description''"
  shows "post_tasks F b1 w = post_tasks F b2 w
     \<and> list_all (\<lambda>t. completed t = False)
         (drop (length (rows w)) (rows (snd (post_tasks F b1 w))))"
  using assms
  by (auto simp: post_tasks_def Task_create_def redis_del_def logged_def Let_def
      split: option.splits json.splits)

theorem create_ignores_completed_witness:
  "post_tasks no_faults [''description'' \<mapsto> JStr ''walk dog'', ''completed'' \<mapsto> JBool True]
      warm_world
    = post_tasks no_faults [''description'' \<mapsto> JStr ''walk dog''] warm_world
   \<and> rows (snd (post_tasks no_faults
        [''description'' \<mapsto> JStr ''walk dog'', ''completed'' \<mapsto> JBool True] warm_world))
      = [milk, \<lparr>task_id = 2, description = ''walk dog'', completed = False\<rparr>]"
proof -
  have d: "[''description'' \<mapsto> JStr ''walk dog'', ''completed'' \<mapsto> JBool True] ''description''
      = [''description'' \<mapsto> JStr ''walk dog''] ''description''"
    by simp
  have r: "rows (snd (post_tasks no_faults
        [''description'' \<mapsto> JStr ''walk dog'', ''completed'' \<mapsto> JBool True] warm_world))
      = [milk, \<lparr>task_id = 2, description = ''walk dog'', completed = False\<rparr>]"
    by (simp add: post_tasks_def Task_create_def redis_del_def logged_def Let_def
        no_faults_def warm_world_def)
  show ?thesis
    using create_ignores_completed
      [of "[''description'' \<mapsto> JStr ''walk dog'', ''completed'' \<mapsto> JBool True]"
          "[''description'' \<mapsto> JStr ''walk dog'']" no_faults warm_world, OF d] r
    by blast
qed

text \<open>
  C4. A \<open>POST /tasks\<close> whose description is missing or the empty string is answered
  with the client error 400, whatever the collaborators would do, and leaves the state as
  it was: no row is written, no cache entry is touched and no collaborator is called.
\<close>

theorem create_rejects_empty_description:
  assumes "body ''description'' = None \<or> body ''description'' = Some (JStr [])"
  shows "post_tasks F body w =
    (Response 400 (JSON_stringify (error_body msg_description_required)), w)"
  using assms by (auto simp: post_tasks_def res_json_def)

theorem create_rejects_empty_description_witness:
  "post_tasks no_faults Map.empty warm_world =
     (Response 400 (JSON_stringify (error_body msg_description_required)), warm_world)
   \<and> post_tasks no_faults [''description'' \<mapsto> JStr [], ''completed'' \<mapsto> JBool True] warm_world =
     (Response 400 (JSON_stringify (error_body msg_description_required)), warm_world)"
proof -
  have a: "Map.empty ''description'' = None \<or> Map.empty ''description'' = Some (JStr [])"
    by simp
  have b: "[''description'' \<mapsto> JStr [], ''completed'' \<mapsto> JBool True] ''description'' = None
      \<or> [''description'' \<mapsto> JStr [], ''completed'' \<mapsto> JBool True] ''description'' = Some (JStr [])"
    by simp
  show ?thesis
    using create_rejects_empty_description [of Map.empty no_faults warm_world, OF a]
      create_rejects_empty_description
        [of "[''description'' \<mapsto> JStr [], ''completed'' \<mapsto> JBool True]" no_faults warm_world,
         OF b]
    by simp
qed

text \<open>
  C5. For an identifier that no row of the store carries, and with the store answering,
  \<open>GET /tasks/:id\<close>, \<open>PUT /tasks/:id\<close> and \<open>DELETE /tasks/:id\<close> respond 404. The
  state gains only the logged call to the store: the cache, and with it the snapshot key,
  is left as it was and no eviction is attempted.
\<close>

theorem unknown_id_not_found:
  assumes "i \<notin> set (map task_id (rows w))"
    and "\<not> F Sot_findByPk" and "\<not> F Sot_destroy"
  shows "get_tasks_id F i w =
           (Response 404 (JSON_stringify (error_body msg_not_found)),
            w\<lparr>trace := trace w @ [Ev_findByPk i]\<rparr>)
       \<and> put_tasks_id F i body w =
           (Response 404 (JSON_stringify (error_body msg_not_found)),
            w\<lparr>trace := trace w @ [Ev_findByPk i]\<rparr>)
       \<and> delete_tasks_id F i w =
           (Response 404 (JSON_stringify (error_body msg_not_found)),
            w\<lparr>trace := trace w @ [Ev_destroy i]\<rparr>)"
  using assms
  by (simp add: get_tasks_id_def put_tasks_id_def delete_tasks_id_def Task_findByPk_def
      Task_destroy_def logged_def res_json_def find_absent filter_absent)

theorem unknown_id_not_found_witness:
  "get_tasks_id no_faults 999 warm_world =
     (Response 404 (JSON_stringify (error_body msg_not_found)),
      warm_world\<lparr>trace := [Ev_findByPk 999]\<rparr>)
   \<and> put_tasks_id no_faults 999 [''completed'' \<mapsto> JBool True] warm_world =
     (Response 404 (JSON_stringify (error_body msg_not_found)),
      warm_world\<lparr>trace := [Ev_findByPk 999]\<rparr>)
   \<and> delete_tasks_id no_faults 999 warm_world =
     (Response 404 (JSON_stringify (error_body msg_not_found)),
      warm_world\<lparr>trace := [Ev_destroy 999]\<rparr>)
   \<and> cache (warm_world\<lparr>trace := [Ev_destroy 999]\<rparr>) cacheKey
       = Some (JSON_stringify (tasks_json [milk]), 3600)"
proof -
  have a: "999 \<notin> set (map task_id (rows warm_world))"
    by (simp add: warm_world_def milk_def)
  have f: "\<not> no_faults Sot_findByPk" "\<not> no_faults Sot_destroy"
    by (simp_all add: no_faults_def)
  have t: "trace warm_world = []" by (simp add: warm_world_def)
  have c: "cache (warm_world\<lparr>trace := [Ev_destroy 999]\<rparr>) cacheKey
       = Some (JSON_stringify (tasks_json [milk]), 3600)"
    by (simp add: warm_world_def)
  show ?thesis
    using unknown_id_not_found
      [of 999 warm_world no_faults "[''completed'' \<mapsto> JBool True]", OF a f] c
    by (simp only: t append_Nil)
qed

subsection \<open>A failing eviction after the store write\<close>

text \<open>
  The three mutating handlers await the eviction outside any \<open>try\<close>, unlike
  \<open>GET /tasks\<close>. With the cache failing on \<open>del\<close>, each of them ends with its promise
  rejected after the store has been changed: the store keeps the change and the cache
  keeps the old snapshot. This is the outcome of the handler only. What the caller then
  receives is decided by the framework that called the handler, and the handlers say
  nothing about it.
\<close>

lemma eviction_failure_rejects:
  "post_tasks (only_fails Redis_del) [''description'' \<mapsto> JStr ''walk dog''] warm_world =
     (Rejected CacheError,
      warm_world\<lparr>rows := [milk, \<lparr>task_id = 2, description = ''walk dog'', completed = False\<rparr>],
        next_id := 3,
        trace := [Ev_create (JStr ''walk dog'') False, Ev_del cacheKey]\<rparr>)
   \<and> put_tasks_id (only_fails Redis_del) 1 [''completed'' \<mapsto> JBool True] warm_world =
     (Rejected CacheError,
      warm_world\<lparr>rows := [milk\<lparr>completed := True\<rparr>],
        trace := [Ev_findByPk 1, Ev_update 1 None (Some (JBool True)), Ev_del cacheKey]\<rparr>)
   \<and> delete_tasks_id (only_fails Redis_del) 1 warm_world =
     (Rejected CacheError,
      warm_world\<lparr>rows := [], trace := [Ev_destroy 1, Ev_del cacheKey]\<rparr>)"
  by (simp add: post_tasks_def put_tasks_id_def delete_tasks_id_def Task_create_def
      Task_findByPk_def task_update_def Task_destroy_def redis_del_def logged_def
      only_fails_def warm_world_def milk_def Let_def)

end
